theory Spec2Isabelle
  imports Main "HOL-Library.Word" "HOL-Library.Multiset"
begin

section \<open>The BalloonGame contract (src/ballongame.sol)\<close>

text \<open>
  Solidity's \<open>uint256\<close> is a 256-bit word and \<open>address\<close> a 160-bit word. The contract is
  compiled with Solidity 0.8, whose \<open>+\<close>, \<open>-\<close>, \<open>*\<close>, \<open>**\<close> and \<open>++\<close> revert with
  \<open>Panic(0x11)\<close> instead of wrapping; a failed \<open>require\<close> reverts with its message. A reverted
  call leaves the storage as it was, so a call returns either an error or the emitted events
  together with the new storage.
\<close>

type_synonym uint256 = "256 word"
type_synonym address = "160 word"

datatype error = Revert string | Panic | TransferFailed

definition checked_add :: "uint256 \<Rightarrow> uint256 \<Rightarrow> error + uint256" where
  "checked_add a b = (if unat a + unat b < 2 ^ 256 then Inr (a + b) else Inl Panic)"

definition checked_sub :: "uint256 \<Rightarrow> uint256 \<Rightarrow> error + uint256" where
  "checked_sub a b = (if unat b \<le> unat a then Inr (a - b) else Inl Panic)"

definition checked_mul :: "uint256 \<Rightarrow> uint256 \<Rightarrow> error + uint256" where
  "checked_mul a b = (if unat a * unat b < 2 ^ 256 then Inr (a * b) else Inl Panic)"

definition checked_pow :: "uint256 \<Rightarrow> uint256 \<Rightarrow> error + uint256" where
  "checked_pow a b = (if unat a ^ unat b < 2 ^ 256 then Inr (a ^ unat b) else Inl Panic)"

definition and_then :: "error + 'a \<Rightarrow> ('a \<Rightarrow> error + 'b) \<Rightarrow> error + 'b" where
  "and_then m f = (case m of Inl e \<Rightarrow> Inl e | Inr x \<Rightarrow> f x)"

subsection \<open>Constants, storage and events\<close>

definition ENTRY_FEE :: uint256 where
  "ENTRY_FEE = 1000000000000000"

definition MAX_ROUNDS :: uint256 where
  "MAX_ROUNDS = 5"

definition MIN_PUMPS_BEFORE_POP :: uint256 where
  "MIN_PUMPS_BEFORE_POP = 3"

record GameState =
  currentRound :: uint256
  pumpCount :: uint256
  pendingPoints :: uint256
  totalScore :: uint256
  isActive :: bool

text \<open>
  The storage of the contract: the two mappings (a Solidity mapping is total, every key
  starts at the zero value), the \<open>players\<close> array and the contract's ether balance.
\<close>

record contract =
  games :: "address \<Rightarrow> GameState"
  highScores :: "address \<Rightarrow> uint256"
  players :: "address list"
  balance :: uint256

datatype event =
    GameStarted address uint256
  | BalloonPumped address uint256 uint256 uint256
  | PointsCollected address uint256 uint256
  | BalloonPopped address uint256 uint256
  | GameCompleted address uint256

type_synonym result = "error + (event list \<times> contract)"

definition zero_game :: GameState where
  "zero_game = \<lparr>currentRound = 0, pumpCount = 0, pendingPoints = 0, totalScore = 0,
                 isActive = False\<rparr>"

text \<open>The storage right after deployment (the constructor does nothing).\<close>

definition deployed :: contract where
  "deployed = \<lparr>games = (\<lambda>_. zero_game), highScores = (\<lambda>_. 0), players = [], balance = 0\<rparr>"

subsection \<open>The state-changing functions\<close>

text \<open>
  \<open>startGame\<close> is \<open>payable\<close>: the value sent is credited to the contract before the body
  runs (the total supply of ether is far below \<open>2 ^ 256\<close>, the balance never wraps). The
  \<open>nonReentrant\<close> modifier only rejects a call made while another guarded call is running;
  the body makes no external call, so between transactions the guard is always open and it
  is not part of the model.
\<close>

definition startGame :: "address \<Rightarrow> uint256 \<Rightarrow> uint256 \<Rightarrow> contract \<Rightarrow> result" where
  "startGame sender msg_value timestamp st =
     (if isActive (games st sender) then Inl (Revert ''Game already active'')
      else if msg_value \<noteq> ENTRY_FEE then Inl (Revert ''Incorrect entry fee'')
      else
        let ps = (if currentRound (games st sender) = 0 then players st @ [sender]
                  else players st)
        in Inr ([GameStarted sender timestamp],
                st\<lparr>games := (games st)(sender :=
                      \<lparr>currentRound = 1, pumpCount = 0, pendingPoints = 0, totalScore = 0,
                       isActive = True\<rparr>),
                   players := ps,
                   balance := balance st + msg_value\<rparr>))"

definition pumpBalloon :: "address \<Rightarrow> contract \<Rightarrow> result" where
  "pumpBalloon sender st =
     (let game = games st sender in
      if \<not> isActive game then Inl (Revert ''No active game'')
      else if \<not> currentRound game \<le> MAX_ROUNDS then Inl (Revert ''Game completed'')
      else if \<not> pumpCount game < 2
        then Inl (Revert ''Max 2 pumps per round! Collect points to continue.'')
      else
        and_then (checked_add (pumpCount game) 1) (\<lambda>pc.
        and_then (checked_sub pc 1) (\<lambda>ex.
        and_then (checked_pow 2 ex) (\<lambda>pw.
        and_then (checked_mul 10 pw) (\<lambda>earnedPoints.
        and_then (checked_add (pendingPoints game) earnedPoints) (\<lambda>pp.
          Inr ([BalloonPumped sender (currentRound game) pc earnedPoints],
               st\<lparr>games := (games st)(sender :=
                     game\<lparr>pumpCount := pc, pendingPoints := pp\<rparr>)\<rparr>)))))))"

definition endGame :: "address \<Rightarrow> contract \<Rightarrow> event list \<times> contract" where
  "endGame player st =
     (let game = games st player;
          hs = (if totalScore game > highScores st player
                then (highScores st)(player := totalScore game)
                else highScores st)
      in ([GameCompleted player (totalScore game)],
          st\<lparr>highScores := hs, games := (games st)(player := game\<lparr>isActive := False\<rparr>)\<rparr>))"

definition collectPoints :: "address \<Rightarrow> contract \<Rightarrow> result" where
  "collectPoints sender st =
     (let game = games st sender in
      if \<not> isActive game then Inl (Revert ''No active game'')
      else if \<not> pumpCount game > 0 then Inl (Revert ''Must pump at least once'')
      else
        and_then (checked_add (totalScore game) (pendingPoints game)) (\<lambda>ts.
          let game1 = game\<lparr>totalScore := ts\<rparr>;
              ev = PointsCollected sender (currentRound game1) (totalScore game1)
          in if currentRound game1 < MAX_ROUNDS then
               and_then (checked_add (currentRound game1) 1) (\<lambda>r.
                 Inr ([ev],
                      st\<lparr>games := (games st)(sender :=
                            game1\<lparr>currentRound := r, pumpCount := 0, pendingPoints := 0\<rparr>)\<rparr>))
             else
               (case endGame sender (st\<lparr>games := (games st)(sender := game1)\<rparr>) of
                  (evs, st') \<Rightarrow> Inr (ev # evs, st'))))"

text \<open>
  \<open>withdraw\<close> sends the whole balance to the caller; \<open>transfer\<close> reverts when the
  recipient does not accept the ether, which the caller of the model says with \<open>accepts\<close>.
\<close>

definition withdraw :: "address \<Rightarrow> bool \<Rightarrow> contract \<Rightarrow> result" where
  "withdraw sender accepts st =
     (if accepts then Inr ([], st\<lparr>balance := 0\<rparr>) else Inl TransferFailed)"

text \<open>The private helper \<open>_checkBalloonPop\<close> is never called.\<close>

definition checkBalloonPop :: "uint256 \<Rightarrow> bool" where
  "checkBalloonPop pc = (if pc \<ge> 3 then True else False)"

subsection \<open>The view functions\<close>

definition getGameState :: "address \<Rightarrow> contract \<Rightarrow> uint256 \<times> uint256 \<times> uint256 \<times> uint256 \<times> bool" where
  "getGameState player st =
     (let game = games st player in
      (currentRound game, pumpCount game, pendingPoints game, totalScore game, isActive game))"

definition getHighScore :: "address \<Rightarrow> contract \<Rightarrow> uint256" where
  "getHighScore player st = highScores st player"

definition getContractBalance :: "contract \<Rightarrow> uint256" where
  "getContractBalance st = balance st"

text \<open>
  \<open>getLeaderboard\<close> copies the players and their high scores into two memory arrays and
  sorts them in place with two nested loops: for every \<open>i\<close> and every \<open>j > i\<close>, the entries
  at \<open>i\<close> and \<open>j\<close> are exchanged when the score at \<open>j\<close> is strictly greater. All indices
  stay below the array length, which is below \<open>2 ^ 256\<close>, so they are natural numbers here.
\<close>

definition swap_step :: "nat \<Rightarrow> nat \<Rightarrow> address list \<times> uint256 list \<Rightarrow> address list \<times> uint256 list" where
  "swap_step i j arrs =
     (case arrs of (tempPlayers, tempScores) \<Rightarrow>
        if tempScores ! j > tempScores ! i
        then (tempPlayers[i := tempPlayers ! j, j := tempPlayers ! i],
              tempScores[i := tempScores ! j, j := tempScores ! i])
        else (tempPlayers, tempScores))"

definition inner_loop :: "nat \<Rightarrow> nat \<Rightarrow> address list \<times> uint256 list \<Rightarrow> address list \<times> uint256 list" where
  "inner_loop playerCount i arrs = fold (swap_step i) [i + 1 ..< playerCount] arrs"

definition sort_loop :: "nat \<Rightarrow> address list \<times> uint256 list \<Rightarrow> address list \<times> uint256 list" where
  "sort_loop playerCount arrs = fold (inner_loop playerCount) [0 ..< playerCount] arrs"

definition getLeaderboard :: "contract \<Rightarrow> address list \<times> uint256 list" where
  "getLeaderboard st =
     (let playerCount = length (players st);
          leaderboardSize = (if playerCount < 10 then playerCount else 10);
          tempPlayers = map (\<lambda>i. players st ! i) [0 ..< playerCount];
          tempScores = map (\<lambda>i. highScores st (players st ! i)) [0 ..< playerCount]
      in case sort_loop playerCount (tempPlayers, tempScores) of
           (sortedPlayers, sortedScores) \<Rightarrow>
             (map (\<lambda>i. sortedPlayers ! i) [0 ..< leaderboardSize],
              map (\<lambda>i. sortedScores ! i) [0 ..< leaderboardSize]))"

subsection \<open>Transactions\<close>

text \<open>
  A transaction is one external call of a state-changing function by some sender. A
  transaction that reverts leaves the storage unchanged. The view functions change nothing
  and are not transactions.
\<close>

datatype op =
    StartGame address uint256 uint256
  | PumpBalloon address
  | CollectPoints address
  | Withdraw address bool

fun exec :: "op \<Rightarrow> contract \<Rightarrow> result" where
  "exec (StartGame a v t) st = startGame a v t st"
| "exec (PumpBalloon a) st = pumpBalloon a st"
| "exec (CollectPoints a) st = collectPoints a st"
| "exec (Withdraw a ok) st = withdraw a ok st"

definition step :: "op \<Rightarrow> contract \<Rightarrow> contract" where
  "step x st = (case exec x st of Inl e \<Rightarrow> st | Inr (evs, st') \<Rightarrow> st')"

fun run :: "op list \<Rightarrow> contract \<Rightarrow> contract" where
  "run [] st = st"
| "run (x # xs) st = run xs (step x st)"

subsection \<open>Bookkeeping over a sequence of transactions\<close>

text \<open>
  \<open>starts a x\<close>: the transaction \<open>x\<close> is a call of \<open>startGame\<close> by \<open>a\<close> that pays
  the entry fee (with any other value the call reverts).
\<close>

fun starts :: "address \<Rightarrow> op \<Rightarrow> bool" where
  "starts a (StartGame b v t) = (b = a \<and> v = ENTRY_FEE)"
| "starts a (PumpBalloon b) = False"
| "starts a (CollectPoints b) = False"
| "starts a (Withdraw b ok) = False"

text \<open>
  \<open>banked a xs st\<close> adds up, over the transactions \<open>xs\<close> run from \<open>st\<close>, the
  \<open>pendingPoints\<close> that \<open>a\<close> holds at each call of \<open>collectPoints\<close> by \<open>a\<close> that
  does not revert; \<open>banks a xs st\<close> counts these calls.
\<close>

fun banked :: "address \<Rightarrow> op list \<Rightarrow> contract \<Rightarrow> nat" where
  "banked a [] st = 0"
| "banked a (x # xs) st =
     (if x = CollectPoints a \<and> \<not> isl (exec x st) then unat (pendingPoints (games st a)) else 0)
       + banked a xs (step x st)"

fun banks :: "address \<Rightarrow> op list \<Rightarrow> contract \<Rightarrow> nat" where
  "banks a [] st = 0"
| "banks a (x # xs) st =
     (if x = CollectPoints a \<and> \<not> isl (exec x st) then 1 else 0) + banks a xs (step x st)"

text \<open>
  \<open>round_pumps a xs st n\<close> counts the calls of \<open>pumpBalloon\<close> by \<open>a\<close> that did not
  revert since \<open>a\<close>'s current round began (a round begins with a successful \<open>startGame\<close>
  or \<open>collectPoints\<close> of \<open>a\<close>), starting from the count \<open>n\<close> and running \<open>xs\<close>
  from \<open>st\<close>.
\<close>

fun round_pumps :: "address \<Rightarrow> op list \<Rightarrow> contract \<Rightarrow> nat \<Rightarrow> nat" where
  "round_pumps a [] st n = n"
| "round_pumps a (x # xs) st n =
     round_pumps a xs (step x st)
       (if isl (exec x st) then n
        else if x = PumpBalloon a then n + 1
        else if x = CollectPoints a \<or> starts a x then 0
        else n)"

subsection \<open>Invariants of a player's game\<close>

text \<open>
  \<open>game_inv\<close> holds of every game in every storage reachable from deployment;
  \<open>round_inv n\<close> relates the round counter to the number \<open>n\<close> of rounds banked since the
  game was started.
\<close>

definition game_inv :: "GameState \<Rightarrow> bool" where
  "game_inv g =
     ((pumpCount g = 0 \<and> pendingPoints g = 0 \<or> pumpCount g = 1 \<and> pendingPoints g = 10
        \<or> pumpCount g = 2 \<and> pendingPoints g = 30)
      \<and> (isActive g \<longrightarrow> 1 \<le> currentRound g \<and> currentRound g \<le> MAX_ROUNDS))"

definition round_inv :: "nat \<Rightarrow> GameState \<Rightarrow> bool" where
  "round_inv n g =
     (if isActive g then unat (currentRound g) = n + 1 \<and> n < 5 else n = 5)"

subsection \<open>Example transactions\<close>

text \<open>
  Five rounds of one player: two pumps in the second round, one in the others, each round
  banked. After a \<open>startGame\<close> they make one complete game with a total of 70.
  \<open>at_round5\<close> is the storage reached from deployment when player 1 has played that
  game up to the pump of round 5, the last \<open>collectPoints\<close> still to come.
\<close>

definition five_rounds :: "address \<Rightarrow> op list" where
  "five_rounds a =
     [PumpBalloon a, CollectPoints a,
      PumpBalloon a, PumpBalloon a, CollectPoints a,
      PumpBalloon a, CollectPoints a,
      PumpBalloon a, CollectPoints a,
      PumpBalloon a, CollectPoints a]"

definition upto_round5 :: "address \<Rightarrow> op list" where
  "upto_round5 a = StartGame a ENTRY_FEE 0 # butlast (five_rounds a)"

definition started :: contract where
  "started = step (StartGame 1 ENTRY_FEE 0) deployed"

definition at_round5 :: contract where
  "at_round5 = run (upto_round5 1) deployed"

definition pumped_once :: contract where
  "pumped_once = step (PumpBalloon 1) started"

definition pumped_twice :: contract where
  "pumped_twice = step (PumpBalloon 1) pumped_once"

definition finished :: contract where
  "finished = step (CollectPoints 1) at_round5"

definition round2 :: contract where
  "round2 = step (CollectPoints 1) pumped_once"

subsection \<open>Notions for the leaderboard\<close>

text \<open>
  What one exchange step does to the scores alone; the state of the scores after the inner
  loop for \<open>i\<close> has run up to \<open>m\<close> (positions before \<open>i\<close> untouched, every later
  entry taken from a later position, position \<open>i\<close> at least as large as the positions
  up to \<open>m\<close>); the first \<open>i\<close> positions being final; and two arrays of length \<open>n\<close> that
  hold the pairs \<open>M\<close>.
\<close>

definition swap_scores :: "nat \<Rightarrow> nat \<Rightarrow> uint256 list \<Rightarrow> uint256 list" where
  "swap_scores i j ss = (if ss ! j > ss ! i then ss[i := ss ! j, j := ss ! i] else ss)"

definition inner_ok :: "nat \<Rightarrow> nat \<Rightarrow> uint256 list \<Rightarrow> uint256 list \<Rightarrow> bool" where
  "inner_ok i m ss ss' =
     (length ss' = length ss
      \<and> (\<forall>k<i. ss' ! k = ss ! k)
      \<and> (\<forall>k. i \<le> k \<and> k < length ss \<longrightarrow> (\<exists>k'. i \<le> k' \<and> k' < length ss \<and> ss' ! k = ss ! k'))
      \<and> (\<forall>k. i < k \<and> k < m \<longrightarrow> ss' ! k \<le> ss' ! i))"

definition prefix_sorted :: "nat \<Rightarrow> uint256 list \<Rightarrow> bool" where
  "prefix_sorted i ss = (\<forall>a b. a < i \<and> a < b \<and> b < length ss \<longrightarrow> ss ! b \<le> ss ! a)"

definition arrays_of :: "nat \<Rightarrow> (address \<times> uint256) multiset \<Rightarrow> address list \<times> uint256 list \<Rightarrow> bool" where
  "arrays_of n M arrs =
     (length (fst arrs) = n \<and> length (snd arrs) = n \<and> mset (zip (fst arrs) (snd arrs)) = M)"

text \<open>
  Three players, registered in the order 1, 2, 3, each with one complete game: players 1
  and 2 score 50, player 3 scores 70. And a storage with eleven registered players and
  their high scores (the games do not matter to the leaderboard).
\<close>

definition one_pump_rounds :: "address \<Rightarrow> op list" where
  "one_pump_rounds a =
     [PumpBalloon a, CollectPoints a, PumpBalloon a, CollectPoints a,
      PumpBalloon a, CollectPoints a, PumpBalloon a, CollectPoints a,
      PumpBalloon a, CollectPoints a]"

definition three_players :: contract where
  "three_players =
     run (StartGame 1 ENTRY_FEE 0 # one_pump_rounds 1
          @ StartGame 2 ENTRY_FEE 0 # one_pump_rounds 2
          @ StartGame 3 ENTRY_FEE 0 # five_rounds 3) deployed"

definition eleven_players :: contract where
  "eleven_players =
     \<lparr>games = (\<lambda>_. zero_game),
      highScores = (\<lambda>a. if a = 6 then 150
                        else if a = 5 \<or> a = 11 then 130
                        else if a = 4 \<or> a = 10 then 110
                        else if a = 3 \<or> a = 9 then 90
                        else if a = 2 \<or> a = 8 then 70
                        else if a = 1 \<or> a = 7 then 50
                        else 0),
      players = [1, 2, 3, 4, 5, 6, 7, 8, 9, 10, 11],
      balance = 0\<rparr>"

section \<open>Basic facts\<close>

lemma word_lt_2: "(w::uint256) < 2 \<Longrightarrow> w = 0 \<or> w = 1"
proof -
  assume "w < 2"
  then have "unat w < 2" by (simp add: word_less_nat_alt)
  then have "unat w = 0 \<or> unat w = 1" by arith
  then show ?thesis by (auto simp: word_unat_eq_iff)
qed

lemma not_pos_word: "(\<not> (0::uint256) < w) = (w = 0)"
  using word_neq_0_conv [of w] by auto

lemma round_lt_max: "(r::uint256) < 5 \<Longrightarrow> unat r + 1 < 2 ^ 256"
proof -
  assume "r < 5"
  then have "unat r < 5" by (simp add: word_less_nat_alt)
  then show ?thesis by simp
qed

text \<open>
  \<open>pumpBalloon\<close> with its arithmetic carried out: below the cap the pump count is 0 or 1,
  so the points earned are 10 or 20, and only the addition to \<open>pendingPoints\<close> can overflow.
\<close>

lemma pumpBalloon_unfold:
  "pumpBalloon a st =
     (let g = games st a in
      if \<not> isActive g then Inl (Revert ''No active game'')
      else if \<not> currentRound g \<le> MAX_ROUNDS then Inl (Revert ''Game completed'')
      else if pumpCount g = 0 then
        (if unat (pendingPoints g) + 10 < 2 ^ 256
         then Inr ([BalloonPumped a (currentRound g) 1 10],
                   st\<lparr>games := (games st)(a := g\<lparr>pumpCount := 1, pendingPoints := pendingPoints g + 10\<rparr>)\<rparr>)
         else Inl Panic)
      else if pumpCount g = 1 then
        (if unat (pendingPoints g) + 20 < 2 ^ 256
         then Inr ([BalloonPumped a (currentRound g) 2 20],
                   st\<lparr>games := (games st)(a := g\<lparr>pumpCount := 2, pendingPoints := pendingPoints g + 20\<rparr>)\<rparr>)
         else Inl Panic)
      else Inl (Revert ''Max 2 pumps per round! Collect points to continue.''))"
proof -
  consider "pumpCount (games st a) = 0" | "pumpCount (games st a) = 1" | "\<not> pumpCount (games st a) < 2"
    using word_lt_2 by blast
  then show ?thesis
  proof cases
    case 1
    then show ?thesis
      by (simp add: pumpBalloon_def Let_def and_then_def checked_add_def checked_sub_def
          checked_mul_def checked_pow_def)
  next
    case 2
    then show ?thesis
      by (simp add: pumpBalloon_def Let_def and_then_def checked_add_def checked_sub_def
          checked_mul_def checked_pow_def)
  next
    case 3
    then have "pumpCount (games st a) \<noteq> 0" "pumpCount (games st a) \<noteq> 1" by auto
    with 3 show ?thesis
      by (simp add: pumpBalloon_def Let_def)
  qed
qed

text \<open>
  \<open>collectPoints\<close> likewise: the round counter cannot overflow below \<open>MAX_ROUNDS\<close>, the
  only arithmetic failure left is the addition to \<open>totalScore\<close>.
\<close>

lemma collectPoints_unfold:
  "collectPoints a st =
     (let g = games st a; ts = totalScore g + pendingPoints g in
      if \<not> isActive g then Inl (Revert ''No active game'')
      else if pumpCount g = 0 then Inl (Revert ''Must pump at least once'')
      else if \<not> unat (totalScore g) + unat (pendingPoints g) < 2 ^ 256 then Inl Panic
      else if currentRound g < MAX_ROUNDS then
        Inr ([PointsCollected a (currentRound g) ts],
             st\<lparr>games := (games st)(a := g\<lparr>totalScore := ts, currentRound := currentRound g + 1,
                                            pumpCount := 0, pendingPoints := 0\<rparr>)\<rparr>)
      else
        Inr ([PointsCollected a (currentRound g) ts, GameCompleted a ts],
             st\<lparr>highScores := (if highScores st a < ts then (highScores st)(a := ts)
                                else highScores st),
                games := (games st)(a := g\<lparr>totalScore := ts, isActive := False\<rparr>)\<rparr>))"
  by (simp add: collectPoints_def Let_def and_then_def checked_add_def endGame_def
      not_pos_word MAX_ROUNDS_def round_lt_max [simplified])

lemma round_succ:
  assumes "(r::uint256) < 5"
  shows "unat (r + 1) = unat r + 1"
proof -
  have "unat r < 5" using assms by (simp add: word_less_nat_alt)
  then have "unat r + unat (1::uint256) < 2 ^ LENGTH(256)" by simp
  then have "unat (r + 1) = unat r + unat (1::uint256)" by (simp only: unat_add_lem)
  then show ?thesis by simp
qed

lemma round_succ_le:
  assumes "(r::uint256) < 5"
  shows "r \<le> r + 1" "r + 1 \<le> 5" "1 \<le> r + 1"
  using assms round_succ [OF assms] by (simp_all add: word_le_nat_alt word_less_nat_alt)

lemma checked_total:
  "unat (a::uint256) + unat b < 2 ^ 256 \<Longrightarrow> unat (a + b) = unat a + unat b"
  using unat_add_lem [of a b] by simp

lemmas call_unfold = startGame_def pumpBalloon_unfold collectPoints_unfold withdraw_def

subsection \<open>A game that is not active stays as it is until its player starts again\<close>

lemma inactive_step:
  "\<not> isActive (games st a) \<Longrightarrow> \<not> starts a x \<Longrightarrow> games (step x st) a = games st a"
  by (cases x) (auto simp add: step_def call_unfold Let_def)

lemma inactive_run:
  "\<not> isActive (games st a) \<Longrightarrow> \<forall>x\<in>set xs. \<not> starts a x \<Longrightarrow> games (run xs st) a = games st a"
proof (induction xs arbitrary: st)
  case Nil
  show ?case by simp
next
  case (Cons x xs)
  from Cons.prems have same: "games (step x st) a = games st a"
    by (simp add: inactive_step)
  with Cons.prems have "games (run xs (step x st)) a = games (step x st) a"
    by (intro Cons.IH) simp_all
  with same show ?case by simp
qed

subsection \<open>Invariants\<close>

lemma game_inv_step: "game_inv (games st a) \<Longrightarrow> game_inv (games (step x st) a)"
  by (cases x)
    (auto simp add: game_inv_def step_def call_unfold Let_def MAX_ROUNDS_def round_succ_le)

lemma game_inv_run: "game_inv (games st a) \<Longrightarrow> game_inv (games (run xs st) a)"
  by (induction xs arbitrary: st) (simp_all add: game_inv_step)

lemma game_inv_deployed: "game_inv (games deployed a)"
  by (simp add: game_inv_def deployed_def zero_game_def)

lemma round_step:
  "\<not> starts a x \<Longrightarrow> currentRound (games st a) \<le> currentRound (games (step x st) a)"
  by (cases x)
    (auto simp add: step_def call_unfold Let_def MAX_ROUNDS_def round_succ_le)

lemma round_run:
  "\<forall>x\<in>set xs. \<not> starts a x \<Longrightarrow> currentRound (games st a) \<le> currentRound (games (run xs st) a)"
proof (induction xs arbitrary: st)
  case Nil
  show ?case by simp
next
  case (Cons x xs)
  then have "currentRound (games st a) \<le> currentRound (games (step x st) a)"
    by (simp add: round_step)
  also from Cons have "\<dots> \<le> currentRound (games (run xs (step x st)) a)"
    by simp
  finally show ?case by simp
qed

lemma banked_step:
  "\<not> starts a x \<Longrightarrow>
   unat (totalScore (games (step x st) a)) =
     unat (totalScore (games st a))
       + (if x = CollectPoints a \<and> \<not> isl (exec x st) then unat (pendingPoints (games st a)) else 0)"
  by (cases x)
    (auto simp add: step_def call_unfold Let_def checked_total)

lemma banked_run:
  "\<forall>x\<in>set xs. \<not> starts a x \<Longrightarrow>
   unat (totalScore (games (run xs st) a)) = unat (totalScore (games st a)) + banked a xs st"
proof (induction xs arbitrary: st)
  case Nil
  show ?case by simp
next
  case (Cons x xs)
  then have "unat (totalScore (games (run xs (step x st)) a)) =
      unat (totalScore (games (step x st) a)) + banked a xs (step x st)"
    by simp
  moreover from Cons.prems have "\<not> starts a x" by simp
  ultimately show ?case by (simp add: banked_step)
qed

lemma round_inv_step:
  "\<not> starts a x \<Longrightarrow> round_inv n (games st a) \<Longrightarrow>
   round_inv (n + (if x = CollectPoints a \<and> \<not> isl (exec x st) then 1 else 0)) (games (step x st) a)"
  by (cases x)
    (auto simp add: round_inv_def step_def call_unfold Let_def MAX_ROUNDS_def round_succ
      word_less_nat_alt split: if_splits)

lemma round_inv_run:
  "\<forall>x\<in>set xs. \<not> starts a x \<Longrightarrow> round_inv n (games st a) \<Longrightarrow>
   round_inv (n + banks a xs st) (games (run xs st) a)"
proof (induction xs arbitrary: st n)
  case Nil
  then show ?case by simp
next
  case (Cons x xs)
  let ?k = "if x = CollectPoints a \<and> \<not> isl (exec x st) then 1 else 0 :: nat"
  from Cons.prems have "round_inv (n + ?k) (games (step x st) a)"
    by (intro round_inv_step) simp_all
  with Cons.prems have "round_inv (n + ?k + banks a xs (step x st)) (games (run xs (step x st)) a)"
    by (intro Cons.IH) simp_all
  then show ?case by (simp add: add.assoc)
qed

lemma highScore_step: "highScores st a \<le> highScores (step x st) a"
  by (cases x) (auto simp add: step_def call_unfold Let_def)

lemma highScore_run: "highScores st a \<le> highScores (run xs st) a"
proof (induction xs arbitrary: st)
  case Nil
  show ?case by simp
next
  case (Cons x xs)
  have "highScores st a \<le> highScores (step x st) a" by (rule highScore_step)
  also have "\<dots> \<le> highScores (run xs (step x st)) a" by (rule Cons.IH)
  finally show ?case by simp
qed

lemma round_pumps_step:
  "(isActive (games st a) \<longrightarrow> unat (pumpCount (games st a)) = n) \<Longrightarrow>
   isActive (games (step x st) a) \<longrightarrow>
     unat (pumpCount (games (step x st) a)) =
       (if isl (exec x st) then n
        else if x = PumpBalloon a then n + 1
        else if x = CollectPoints a \<or> starts a x then 0
        else n)"
  by (cases x) (auto simp add: step_def call_unfold Let_def)

lemma round_pumps_run:
  "(isActive (games st a) \<longrightarrow> unat (pumpCount (games st a)) = n) \<Longrightarrow>
   isActive (games (run xs st) a) \<longrightarrow>
     unat (pumpCount (games (run xs st) a)) = round_pumps a xs st n"
proof (induction xs arbitrary: st n)
  case Nil
  then show ?case by simp
next
  case (Cons x xs)
  show ?case
    using Cons.IH [OF round_pumps_step [OF Cons.prems, of x]] by simp
qed

lemma round_pumps_deployed:
  "isActive (games (run xs deployed) a) \<Longrightarrow>
     unat (pumpCount (games (run xs deployed) a)) = round_pumps a xs deployed 0"
  using round_pumps_run [of deployed a 0 xs] by (simp add: deployed_def zero_game_def)

lemma pump_succeeds:
  "pumpBalloon a st = Inr (evs, st') \<Longrightarrow>
     unat (pumpCount (games st' a)) = unat (pumpCount (games st a)) + 1
     \<and> unat (pendingPoints (games st' a)) =
         unat (pendingPoints (games st a)) + 10 * 2 ^ unat (pumpCount (games st a))"
  by (auto simp add: pumpBalloon_unfold Let_def unat_word_ariths split: if_splits)

subsection \<open>The example transactions, evaluated\<close>

lemmas run_unfold = call_unfold step_def Let_def deployed_def zero_game_def ENTRY_FEE_def
  MAX_ROUNDS_def

lemma started_game:
  "games started 1 =
     \<lparr>currentRound = 1, pumpCount = 0, pendingPoints = 0, totalScore = 0, isActive = True\<rparr>"
  by (simp add: started_def run_unfold)

lemma at_round5_game:
  "games at_round5 1 =
     \<lparr>currentRound = 5, pumpCount = 1, pendingPoints = 10, totalScore = 60, isActive = True\<rparr>"
  by (simp add: at_round5_def upto_round5_def five_rounds_def run_unfold)

lemma at_round5_highScore: "highScores at_round5 1 = 0"
  by (simp add: at_round5_def upto_round5_def five_rounds_def run_unfold)

lemma pumped_once_game:
  "games pumped_once 1 =
     \<lparr>currentRound = 1, pumpCount = 1, pendingPoints = 10, totalScore = 0, isActive = True\<rparr>"
  by (simp add: pumped_once_def step_def pumpBalloon_unfold started_game MAX_ROUNDS_def Let_def)

lemma pumped_twice_game:
  "games pumped_twice 1 =
     \<lparr>currentRound = 1, pumpCount = 2, pendingPoints = 30, totalScore = 0, isActive = True\<rparr>"
  by (simp add: pumped_twice_def step_def pumpBalloon_unfold pumped_once_game MAX_ROUNDS_def
      Let_def)

lemma at_round5_collect:
  "collectPoints 1 at_round5 = Inr ([PointsCollected 1 5 70, GameCompleted 1 70], finished)"
  by (simp add: finished_def step_def collectPoints_unfold at_round5_game at_round5_highScore
      MAX_ROUNDS_def Let_def)

lemma finished_game:
  "games finished 1 =
     \<lparr>currentRound = 5, pumpCount = 1, pendingPoints = 10, totalScore = 70, isActive = False\<rparr>"
  by (simp add: finished_def step_def collectPoints_unfold at_round5_game at_round5_highScore
      MAX_ROUNDS_def Let_def)

lemma finished_highScore: "highScores finished 1 = 70"
  by (simp add: finished_def step_def collectPoints_unfold at_round5_game at_round5_highScore
      MAX_ROUNDS_def Let_def)

lemma pumped_once_collect:
  "collectPoints 1 pumped_once = Inr ([PointsCollected 1 1 10], round2)"
  by (simp add: round2_def step_def collectPoints_unfold pumped_once_game MAX_ROUNDS_def Let_def)

lemma round2_game:
  "games round2 1 =
     \<lparr>currentRound = 2, pumpCount = 0, pendingPoints = 0, totalScore = 10, isActive = True\<rparr>"
  by (simp add: round2_def step_def collectPoints_unfold pumped_once_game MAX_ROUNDS_def Let_def)

lemma deployed_start:
  "startGame 1 ENTRY_FEE 0 deployed = Inr ([GameStarted 1 0], started)"
  by (simp add: started_def run_unfold)

subsection \<open>The sort of the leaderboard\<close>

lemma snd_swap_step: "snd (swap_step i j arrs) = swap_scores i j (snd arrs)"
  by (cases arrs) (simp add: swap_step_def swap_scores_def)

lemma snd_fold_swap_step:
  "snd (fold (swap_step i) js arrs) = fold (swap_scores i) js (snd arrs)"
  by (induction js arbitrary: arrs) (simp_all add: snd_swap_step)

lemma snd_inner_loop:
  "snd (inner_loop n i arrs) = fold (swap_scores i) [i + 1 ..< n] (snd arrs)"
  by (simp add: inner_loop_def snd_fold_swap_step)

lemma snd_fold_inner_loop:
  "snd (fold (inner_loop n) is arrs) =
     fold (\<lambda>i. fold (swap_scores i) [i + 1 ..< n]) is (snd arrs)"
  by (induction "is" arbitrary: arrs) (simp_all add: snd_inner_loop)

lemma swap_scores_length: "length (swap_scores i j ss) = length ss"
  by (simp add: swap_scores_def)

lemma swap_scores_step:
  assumes ok: "inner_ok i j ss ss1" and ij: "i < j" and jn: "j < length ss"
  shows "inner_ok i (Suc j) ss (swap_scores i j ss1)"
proof -
  from ok have len: "length ss1 = length ss"
    and pre: "\<forall>k<i. ss1 ! k = ss ! k"
    and src: "\<forall>k. i \<le> k \<and> k < length ss \<longrightarrow> (\<exists>k'. i \<le> k' \<and> k' < length ss \<and> ss1 ! k = ss ! k')"
    and top: "\<forall>k. i < k \<and> k < j \<longrightarrow> ss1 ! k \<le> ss1 ! i"
    by (simp_all add: inner_ok_def)
  show ?thesis
  proof (cases "ss1 ! j > ss1 ! i")
    case False
    then have same: "swap_scores i j ss1 = ss1" by (simp add: swap_scores_def)
    from False have "ss1 ! j \<le> ss1 ! i" by simp
    with top have "\<forall>k. i < k \<and> k < Suc j \<longrightarrow> ss1 ! k \<le> ss1 ! i"
      by (auto simp add: less_Suc_eq)
    with len pre src show ?thesis by (simp add: same inner_ok_def)
  next
    case True
    let ?ss2 = "ss1[i := ss1 ! j, j := ss1 ! i]"
    from True have eq: "swap_scores i j ss1 = ?ss2" by (simp add: swap_scores_def)
    from ij jn len have at_i: "?ss2 ! i = ss1 ! j" and at_j: "?ss2 ! j = ss1 ! i"
      by simp_all
    have other: "?ss2 ! k = ss1 ! k" if "k \<noteq> i" "k \<noteq> j" for k
      using that by simp
    have "\<forall>k<i. ?ss2 ! k = ss ! k"
      using pre ij other by auto
    moreover have "\<forall>k. i \<le> k \<and> k < length ss \<longrightarrow>
        (\<exists>k'. i \<le> k' \<and> k' < length ss \<and> ?ss2 ! k = ss ! k')"
    proof (intro allI impI)
      fix k assume k: "i \<le> k \<and> k < length ss"
      consider "k = i" | "k = j" | "k \<noteq> i" "k \<noteq> j" by blast
      then show "\<exists>k'. i \<le> k' \<and> k' < length ss \<and> ?ss2 ! k = ss ! k'"
      proof cases
        case 1
        from ij jn have "i \<le> j \<and> j < length ss" by simp
        with src obtain k' where "i \<le> k'" "k' < length ss" "ss1 ! j = ss ! k'" by blast
        with 1 at_i show ?thesis by auto
      next
        case 2
        from ij jn have "i \<le> i \<and> i < length ss" by simp
        with src obtain k' where "i \<le> k'" "k' < length ss" "ss1 ! i = ss ! k'" by blast
        with 2 at_j show ?thesis by auto
      next
        case 3
        from src k obtain k' where "i \<le> k'" "k' < length ss" "ss1 ! k = ss ! k'" by blast
        with other [OF 3] show ?thesis by auto
      qed
    qed
    moreover have "\<forall>k. i < k \<and> k < Suc j \<longrightarrow> ?ss2 ! k \<le> ?ss2 ! i"
    proof (intro allI impI)
      fix k assume k: "i < k \<and> k < Suc j"
      show "?ss2 ! k \<le> ?ss2 ! i"
      proof (cases "k = j")
        case True
        with at_i at_j \<open>ss1 ! j > ss1 ! i\<close> show ?thesis by simp
      next
        case False
        with k have "k < j" "k \<noteq> i" by simp_all
        with top k have "ss1 ! k \<le> ss1 ! i" by simp
        also from \<open>ss1 ! j > ss1 ! i\<close> have "\<dots> \<le> ss1 ! j" by simp
        finally show ?thesis using other [of k] \<open>k \<noteq> i\<close> False at_i by simp
      qed
    qed
    ultimately show ?thesis using len by (simp add: eq inner_ok_def)
  qed
qed

lemma inner_scores_ok:
  "i < m \<Longrightarrow> m \<le> length ss \<Longrightarrow> inner_ok i m ss (fold (swap_scores i) [Suc i ..< m] ss)"
proof (induction m)
  case 0
  then show ?case by simp
next
  case (Suc m)
  show ?case
  proof (cases "i = m")
    case True
    then show ?thesis by (auto simp add: inner_ok_def)
  next
    case False
    with Suc.prems have im: "i < m" and mn: "m < length ss" by simp_all
    then have "inner_ok i m ss (fold (swap_scores i) [Suc i ..< m] ss)"
      by (intro Suc.IH) simp_all
    from swap_scores_step [OF this im mn] im show ?thesis
      by (simp add: upt_Suc_append)
  qed
qed

lemma inner_scores_empty:
  "length ss \<le> Suc i \<Longrightarrow> fold (swap_scores i) [Suc i ..< length ss] ss = ss"
  by simp

lemma outer_step:
  assumes ps: "prefix_sorted i ss" and i: "i < length ss"
  shows "prefix_sorted (Suc i) (fold (swap_scores i) [Suc i ..< length ss] ss)
    \<and> length (fold (swap_scores i) [Suc i ..< length ss] ss) = length ss"
proof -
  let ?ss' = "fold (swap_scores i) [Suc i ..< length ss] ss"
  have ok: "inner_ok i (length ss) ss ?ss'"
    using i by (intro inner_scores_ok) simp_all
  then have len: "length ?ss' = length ss"
    and pre: "\<forall>k<i. ?ss' ! k = ss ! k"
    and src: "\<forall>k. i \<le> k \<and> k < length ss \<longrightarrow> (\<exists>k'. i \<le> k' \<and> k' < length ss \<and> ?ss' ! k = ss ! k')"
    and top: "\<forall>k. i < k \<and> k < length ss \<longrightarrow> ?ss' ! k \<le> ?ss' ! i"
    by (simp_all add: inner_ok_def)
  have "?ss' ! b \<le> ?ss' ! a" if ab: "a < Suc i" "a < b" "b < length ss" for a b
  proof (cases "a = i")
    case True
    with top ab show ?thesis by simp
  next
    case False
    with ab have ai: "a < i" by simp
    with pre have a: "?ss' ! a = ss ! a" by simp
    show ?thesis
    proof (cases "b < i")
      case True
      with pre have "?ss' ! b = ss ! b" by simp
      with a ps ai ab show ?thesis by (simp add: prefix_sorted_def)
    next
      case False
      with ab have "i \<le> b \<and> b < length ss" by simp
      with src obtain k' where k': "i \<le> k'" "k' < length ss" "?ss' ! b = ss ! k'"
        by blast
      with ps ai have "ss ! k' \<le> ss ! a" by (simp add: prefix_sorted_def)
      with a k' show ?thesis by simp
    qed
  qed
  with len show ?thesis by (simp add: prefix_sorted_def)
qed

lemma outer_scores_ok:
  "m \<le> length ss \<Longrightarrow>
   prefix_sorted m (fold (\<lambda>i. fold (swap_scores i) [Suc i ..< length ss]) [0 ..< m] ss)
   \<and> length (fold (\<lambda>i. fold (swap_scores i) [Suc i ..< length ss]) [0 ..< m] ss) = length ss"
proof (induction m)
  case 0
  show ?case by (simp add: prefix_sorted_def)
next
  case (Suc m)
  let ?ss1 = "fold (\<lambda>i. fold (swap_scores i) [Suc i ..< length ss]) [0 ..< m] ss"
  from Suc have ih: "prefix_sorted m ?ss1" and len: "length ?ss1 = length ss" by simp_all
  from Suc.prems len have "m < length ?ss1" by simp
  from outer_step [OF ih this] len show ?case by simp
qed

lemma sort_scores_sorted:
  "sorted_wrt (\<lambda>x y. y \<le> x)
     (fold (\<lambda>i. fold (swap_scores i) [Suc i ..< length ss]) [0 ..< length ss] ss)"
  using outer_scores_ok [of "length ss" ss]
  by (simp add: sorted_wrt_iff_nth_less prefix_sorted_def)

lemma swap_step_arrays:
  assumes "arrays_of n M arrs" "i < n" "j < n"
  shows "arrays_of n M (swap_step i j arrs)"
proof -
  obtain ps ss where arrs: "arrs = (ps, ss)" by (cases arrs)
  with assms have len: "length ps = n" "length ss = n" and M: "mset (zip ps ss) = M"
    by (simp_all add: arrays_of_def)
  have "zip (ps[i := ps ! j, j := ps ! i]) (ss[i := ss ! j, j := ss ! i])
      = (zip ps ss)[i := zip ps ss ! j, j := zip ps ss ! i]"
    using len assms(2,3) by (simp add: zip_update)
  also have "mset \<dots> = mset (zip ps ss)"
    using len assms(2,3) by (intro mset_swap) simp_all
  finally show ?thesis using len M
    by (simp add: arrs swap_step_def arrays_of_def)
qed

lemma inner_loop_arrays:
  assumes "arrays_of n M arrs" "i < n"
  shows "arrays_of n M (inner_loop n i arrs)"
  unfolding inner_loop_def
proof (rule fold_invariant [where Q = "\<lambda>j. j < n"])
  show "arrays_of n M arrs" by (rule assms(1))
next
  fix j assume "j \<in> set [i + 1 ..< n]"
  then show "j < n" by simp
next
  fix j s assume "j < n" "arrays_of n M s"
  with assms(2) show "arrays_of n M (swap_step i j s)" by (simp add: swap_step_arrays)
qed

lemma sort_loop_arrays:
  assumes "arrays_of n M arrs"
  shows "arrays_of n M (sort_loop n arrs)"
  unfolding sort_loop_def
proof (rule fold_invariant [where Q = "\<lambda>i. i < n"])
  show "arrays_of n M arrs" by (rule assms)
next
  fix i assume "i \<in> set [0 ..< n]"
  then show "i < n" by simp
next
  fix i s assume "i < n" "arrays_of n M s"
  then show "arrays_of n M (inner_loop n i s)" by (simp add: inner_loop_arrays)
qed

lemma sort_loop_sorted:
  assumes "length (snd arrs) = n"
  shows "sorted_wrt (\<lambda>x y. y \<le> x) (snd (sort_loop n arrs))"
  using sort_scores_sorted [of "snd arrs"] assms
  by (simp add: sort_loop_def snd_fold_inner_loop)

lemma map_nth_take: "k \<le> length xs \<Longrightarrow> map (\<lambda>i. xs ! i) [0 ..< k] = take k xs"
  by (rule nth_equalityI) simp_all

lemma map_nth_all: "map (\<lambda>i. f (xs ! i)) [0 ..< length xs] = map f xs"
  by (rule nth_equalityI) simp_all

text \<open>The leaderboard is the first \<open>min 10 n\<close> entries of the sorted arrays.\<close>

lemma getLeaderboard_take:
  "getLeaderboard st =
     (take 10 (fst (sort_loop (length (players st))
                      (players st, map (highScores st) (players st)))),
      take 10 (snd (sort_loop (length (players st))
                      (players st, map (highScores st) (players st)))))"
proof -
  let ?n = "length (players st)"
  let ?init = "(players st, map (highScores st) (players st))"
  let ?M = "mset (zip (players st) (map (highScores st) (players st)))"
  have init: "map (\<lambda>i. highScores st (players st ! i)) [0 ..< ?n]
      = map (highScores st) (players st)"
    by (rule map_nth_all)
  have "arrays_of ?n ?M ?init" by (simp add: arrays_of_def)
  then have "arrays_of ?n ?M (sort_loop ?n ?init)" by (rule sort_loop_arrays)
  then have len: "length (fst (sort_loop ?n ?init)) = ?n" "length (snd (sort_loop ?n ?init)) = ?n"
    by (simp_all add: arrays_of_def)
  show ?thesis
    using len
    by (cases "sort_loop ?n ?init")
      (simp add: getLeaderboard_def Let_def init map_nth_take map_nth)
qed

lemma zip_with_map: "zip xs (map f xs) = map (\<lambda>x. (x, f x)) xs"
  by (induction xs) simp_all

lemma top_of_sorted:
  assumes len: "length tp = length ts"
    and srt: "sorted_wrt (\<lambda>x y. y \<le> x) ts"
    and M: "mset (zip tp ts) = M"
  shows "mset (zip (take k tp) (take k ts)) \<subseteq># M
    \<and> (\<forall>q \<in># M - mset (zip (take k tp) (take k ts)). \<forall>s \<in> set (take k ts). snd q \<le> s)"
proof -
  let ?full = "zip tp ts"
  have board: "zip (take k tp) (take k ts) = take k ?full" by (simp add: take_zip)
  have split: "M = mset (take k ?full) + mset (drop k ?full)"
    using M by (simp flip: mset_append)
  have rest: "M - mset (take k ?full) = mset (drop k ?full)"
    by (simp add: split)
  have low: "snd q \<le> s" if q: "q \<in> set (drop k ?full)" and s: "s \<in> set (take k ts)" for q s
  proof -
    from q obtain i where i: "i < length (drop k ?full)" "q = drop k ?full ! i"
      by (auto simp add: in_set_conv_nth)
    from s obtain j where j: "j < length (take k ts)" "s = take k ts ! j"
      by (auto simp add: in_set_conv_nth)
    from i len have ki: "k + i < length ts" by simp
    with i len have sq: "snd q = ts ! (k + i)" by simp
    from j have js: "j < k" "s = ts ! j" by simp_all
    from js ki have "j < k + i" by simp
    with srt ki have "ts ! (k + i) \<le> ts ! j"
      by (simp add: sorted_wrt_iff_nth_less)
    with sq js show ?thesis by simp
  qed
  show ?thesis
    using low by (simp add: board rest) (simp add: split)
qed

lemma three_players_list: "players three_players = [1, 2, 3]"
  by (simp add: three_players_def one_pump_rounds_def five_rounds_def run_unfold)

lemma three_players_scores:
  "highScores three_players 1 = 50" "highScores three_players 2 = 50"
  "highScores three_players 3 = 70"
  by (simp_all add: three_players_def one_pump_rounds_def five_rounds_def run_unfold)

lemma three_players_board: "getLeaderboard three_players = ([3, 2, 1], [70, 50, 50])"
  by (simp add: getLeaderboard_def sort_loop_def inner_loop_def swap_step_def Let_def
      three_players_list three_players_scores upt_rec)

lemma eleven_players_board:
  "getLeaderboard eleven_players =
     ([6, 5, 11, 10, 4, 3, 9, 8, 2, 1], [150, 130, 130, 110, 110, 90, 90, 70, 70, 50])"
  by (simp add: getLeaderboard_def sort_loop_def inner_loop_def swap_step_def Let_def
      eleven_players_def upt_rec)

lemma eleven_players_rest:
  "(7, 50) \<in># mset (map (\<lambda>p. (p, highScores eleven_players p)) (players eleven_players))
       - mset (zip (fst (getLeaderboard eleven_players)) (snd (getLeaderboard eleven_players)))"
  by (simp add: eleven_players_board) (simp add: eleven_players_def)

section \<open>Properties of the specification\<close>

text \<open>
  C1. One complete game is a \<open>startGame\<close> that succeeds, followed by transactions (of
  any sender, reverted ones included) among which the player does not call \<open>startGame\<close>
  with the entry fee again, up to a storage where the player's game is no longer active.
  Then the player's \<open>totalScore\<close> is exactly the sum of the \<open>pendingPoints\<close> committed
  by the player's successful calls of \<open>collectPoints\<close>, and there were exactly five of
  them.
\<close>

theorem totalScore_is_banked_sum:
  assumes "startGame a v t st0 = Inr (evs, st1)"
    and "\<forall>x\<in>set xs. \<not> starts a x"
    and "\<not> isActive (games (run xs st1) a)"
  shows "unat (totalScore (games (run xs st1) a)) = banked a xs st1 \<and> banks a xs st1 = 5"
proof
  from assms(1) have fresh: "totalScore (games st1 a) = 0" "round_inv 0 (games st1 a)"
    by (auto simp add: startGame_def round_inv_def Let_def split: if_splits)
  from banked_run [OF assms(2), of st1] fresh(1)
  show "unat (totalScore (games (run xs st1) a)) = banked a xs st1" by simp
  from round_inv_run [OF assms(2) fresh(2)] assms(3)
  show "banks a xs st1 = 5" by (simp add: round_inv_def)
qed

theorem totalScore_is_banked_sum_witness:
  "unat (totalScore (games (run (five_rounds 1) started) 1)) = 70
   \<and> banked 1 (five_rounds 1) started = 70
   \<and> banks 1 (five_rounds 1) started = 5"
proof -
  have h1: "startGame 1 ENTRY_FEE 0 deployed = Inr ([GameStarted 1 0], started)"
    by (simp add: started_def run_unfold)
  have h2: "\<forall>x\<in>set (five_rounds 1). \<not> starts 1 x"
    by (simp add: five_rounds_def)
  have h3: "\<not> isActive (games (run (five_rounds 1) started) 1)"
    by (simp add: five_rounds_def started_def run_unfold)
  have "banked 1 (five_rounds 1) started = 70"
    by (simp add: five_rounds_def started_def run_unfold)
  with totalScore_is_banked_sum [OF h1 h2 h3] show ?thesis by simp
qed

text \<open>
  C2. A call of \<open>pumpBalloon\<close> that succeeds increments \<open>pumpCount\<close> by one and adds
  \<open>10 * 2 ^ (k - 1)\<close> to \<open>pendingPoints\<close>, where \<open>k\<close> is the new \<open>pumpCount\<close>: 10 for the
  first pump of a round, 20 for the second. In every storage reachable from deployment
  \<open>k\<close> is the number of the pump among the successful pumps of the player's round. With
  \<open>pumpCount\<close> at 2 or more the call reverts (with the cap's message when the game is
  active in a round up to 5), without an active game it reverts with
  \<open>No active game\<close>; a reverted call leaves the storage as it was.
\<close>

theorem pumpBalloon_spec:
  "(pumpBalloon a st = Inr (evs, st') \<longrightarrow>
      pumpCount (games st' a) = pumpCount (games st a) + 1
      \<and> unat (pumpCount (games st' a)) = unat (pumpCount (games st a)) + 1
      \<and> unat (pendingPoints (games st' a)) =
          unat (pendingPoints (games st a)) + 10 * 2 ^ (unat (pumpCount (games st' a)) - 1)
      \<and> evs = [BalloonPumped a (currentRound (games st a)) (pumpCount (games st' a))
                  (10 * 2 ^ (unat (pumpCount (games st' a)) - 1))])
   \<and> (pumpCount (games st a) = 0 \<and> pumpBalloon a st = Inr (evs, st') \<longrightarrow>
        pendingPoints (games st' a) = pendingPoints (games st a) + 10)
   \<and> (pumpCount (games st a) = 1 \<and> pumpBalloon a st = Inr (evs, st') \<longrightarrow>
        pendingPoints (games st' a) = pendingPoints (games st a) + 20)
   \<and> (pumpBalloon a (run xs deployed) = Inr (evs, st') \<longrightarrow>
        unat (pumpCount (games st' a)) = round_pumps a xs deployed 0 + 1
        \<and> unat (pendingPoints (games st' a)) =
            unat (pendingPoints (games (run xs deployed) a))
              + 10 * 2 ^ round_pumps a xs deployed 0)
   \<and> (2 \<le> pumpCount (games st a) \<longrightarrow>
        isl (pumpBalloon a st) \<and> step (PumpBalloon a) st = st)
   \<and> (2 \<le> pumpCount (games st a) \<and> isActive (games st a)
        \<and> currentRound (games st a) \<le> MAX_ROUNDS \<longrightarrow>
        pumpBalloon a st = Inl (Revert ''Max 2 pumps per round! Collect points to continue.''))
   \<and> (\<not> isActive (games st a) \<longrightarrow>
        pumpBalloon a st = Inl (Revert ''No active game'') \<and> step (PumpBalloon a) st = st)"
proof -
  have rest: "(pumpBalloon a st = Inr (evs, st') \<longrightarrow>
      pumpCount (games st' a) = pumpCount (games st a) + 1
      \<and> unat (pumpCount (games st' a)) = unat (pumpCount (games st a)) + 1
      \<and> unat (pendingPoints (games st' a)) =
          unat (pendingPoints (games st a)) + 10 * 2 ^ (unat (pumpCount (games st' a)) - 1)
      \<and> evs = [BalloonPumped a (currentRound (games st a)) (pumpCount (games st' a))
                  (10 * 2 ^ (unat (pumpCount (games st' a)) - 1))])
   \<and> (pumpCount (games st a) = 0 \<and> pumpBalloon a st = Inr (evs, st') \<longrightarrow>
        pendingPoints (games st' a) = pendingPoints (games st a) + 10)
   \<and> (pumpCount (games st a) = 1 \<and> pumpBalloon a st = Inr (evs, st') \<longrightarrow>
        pendingPoints (games st' a) = pendingPoints (games st a) + 20)
   \<and> (2 \<le> pumpCount (games st a) \<longrightarrow>
        isl (pumpBalloon a st) \<and> step (PumpBalloon a) st = st)
   \<and> (2 \<le> pumpCount (games st a) \<and> isActive (games st a)
        \<and> currentRound (games st a) \<le> MAX_ROUNDS \<longrightarrow>
        pumpBalloon a st = Inl (Revert ''Max 2 pumps per round! Collect points to continue.''))
   \<and> (\<not> isActive (games st a) \<longrightarrow>
        pumpBalloon a st = Inl (Revert ''No active game'') \<and> step (PumpBalloon a) st = st)"
    by (auto simp add: pumpBalloon_unfold step_def Let_def unat_word_ariths word_le_nat_alt
        split: if_splits)
  have reach: "pumpBalloon a (run xs deployed) = Inr (evs, st') \<longrightarrow>
        unat (pumpCount (games st' a)) = round_pumps a xs deployed 0 + 1
        \<and> unat (pendingPoints (games st' a)) =
            unat (pendingPoints (games (run xs deployed) a))
              + 10 * 2 ^ round_pumps a xs deployed 0"
  proof
    assume ok: "pumpBalloon a (run xs deployed) = Inr (evs, st')"
    then have "isActive (games (run xs deployed) a)"
      by (auto simp add: pumpBalloon_unfold Let_def split: if_splits)
    then have k: "unat (pumpCount (games (run xs deployed) a)) = round_pumps a xs deployed 0"
      by (rule round_pumps_deployed)
    from ok pump_succeeds [of a "run xs deployed" evs st']
    have "unat (pumpCount (games st' a)) = unat (pumpCount (games (run xs deployed) a)) + 1"
      and "unat (pendingPoints (games st' a)) =
          unat (pendingPoints (games (run xs deployed) a))
            + 10 * 2 ^ unat (pumpCount (games (run xs deployed) a))"
      by simp_all
    then show "unat (pumpCount (games st' a)) = round_pumps a xs deployed 0 + 1
        \<and> unat (pendingPoints (games st' a)) =
            unat (pendingPoints (games (run xs deployed) a))
              + 10 * 2 ^ round_pumps a xs deployed 0"
      by (simp only: k)
  qed
  from reach rest show ?thesis by blast
qed

theorem pumpBalloon_spec_witness:
  "unat (pumpCount (games pumped_once 1)) = 1
   \<and> unat (pendingPoints (games pumped_once 1)) = 10
   \<and> unat (pumpCount (games pumped_twice 1)) = 2
   \<and> unat (pendingPoints (games pumped_twice 1)) = 30
   \<and> round_pumps 1 [StartGame 1 ENTRY_FEE 0, PumpBalloon 1] deployed 0 + 1 = 2
   \<and> pumpBalloon 1 pumped_twice
       = Inl (Revert ''Max 2 pumps per round! Collect points to continue.'')
   \<and> step (PumpBalloon 1) pumped_twice = pumped_twice
   \<and> pumpBalloon 1 deployed = Inl (Revert ''No active game'')
   \<and> step (PumpBalloon 1) deployed = deployed"
proof -
  have p1: "pumpBalloon 1 started = Inr ([BalloonPumped 1 1 1 10], pumped_once)"
    by (simp add: pumped_once_def step_def pumpBalloon_unfold started_game MAX_ROUNDS_def
        Let_def)
  have p2: "pumpBalloon 1 pumped_once = Inr ([BalloonPumped 1 1 2 20], pumped_twice)"
    by (simp add: pumped_twice_def step_def pumpBalloon_unfold pumped_once_game MAX_ROUNDS_def
        Let_def)
  have r2: "run [StartGame 1 ENTRY_FEE 0, PumpBalloon 1] deployed = pumped_once"
    by (simp add: pumped_once_def started_def)
  have cap: "2 \<le> pumpCount (games pumped_twice 1)" "isActive (games pumped_twice 1)"
    "currentRound (games pumped_twice 1) \<le> MAX_ROUNDS"
    by (simp_all add: pumped_twice_game MAX_ROUNDS_def)
  have off: "\<not> isActive (games deployed 1)"
    by (simp add: deployed_def zero_game_def)
  from p1 pumpBalloon_spec [where a = 1 and st = started and st' = pumped_once
      and evs = "[BalloonPumped 1 1 1 10]" and xs = "[]"]
  have a1: "unat (pumpCount (games pumped_once 1)) = 1"
    "unat (pendingPoints (games pumped_once 1)) = 10"
    by (simp_all add: started_game del: run.simps round_pumps.simps)
  note T2 = pumpBalloon_spec [where a = 1 and st = pumped_once and st' = pumped_twice
      and evs = "[BalloonPumped 1 1 2 20]"
      and xs = "[StartGame 1 ENTRY_FEE 0, PumpBalloon 1]"]
  from p2 T2
  have a2: "unat (pumpCount (games pumped_twice 1)) = 2"
    "unat (pendingPoints (games pumped_twice 1)) = 30"
    by (simp_all add: pumped_once_game del: run.simps round_pumps.simps)
  from p2 have "pumpBalloon 1 (run [StartGame 1 ENTRY_FEE 0, PumpBalloon 1] deployed)
      = Inr ([BalloonPumped 1 1 2 20], pumped_twice)"
    by (simp only: r2)
  with T2 have "unat (pumpCount (games pumped_twice 1))
      = round_pumps 1 [StartGame 1 ENTRY_FEE 0, PumpBalloon 1] deployed 0 + 1"
    by blast
  with a2(1) have a2': "round_pumps 1 [StartGame 1 ENTRY_FEE 0, PumpBalloon 1] deployed 0 + 1 = 2"
    by simp
  from cap pumpBalloon_spec [where a = 1 and st = pumped_twice]
  have a3: "pumpBalloon 1 pumped_twice
       = Inl (Revert ''Max 2 pumps per round! Collect points to continue.'')"
    "step (PumpBalloon 1) pumped_twice = pumped_twice"
    by simp_all
  from off pumpBalloon_spec [where a = 1 and st = deployed]
  have a4: "pumpBalloon 1 deployed = Inl (Revert ''No active game'')"
    "step (PumpBalloon 1) deployed = deployed"
    by simp_all
  from a1 a2 a2' a3 a4 show ?thesis by simp
qed

text \<open>
  C3. \<open>startGame\<close> reverts with \<open>Game already active\<close> whenever the caller's game is
  active, whatever its round and score, and with \<open>Incorrect entry fee\<close> when the game is
  not active and the value sent is not the entry fee (the active game is checked first);
  either way the storage stays as it was. Otherwise it succeeds and the caller's game is
  the fresh one: round 1, no pumps, no pending points, total 0, active.
\<close>

theorem startGame_spec:
  "(isActive (games st a) \<longrightarrow> startGame a v t st = Inl (Revert ''Game already active''))
   \<and> (\<not> isActive (games st a) \<and> v \<noteq> ENTRY_FEE \<longrightarrow>
        startGame a v t st = Inl (Revert ''Incorrect entry fee''))
   \<and> (isActive (games st a) \<or> v \<noteq> ENTRY_FEE \<longrightarrow>
        isl (startGame a v t st) \<and> step (StartGame a v t) st = st)
   \<and> (\<not> isActive (games st a) \<and> v = ENTRY_FEE \<longrightarrow>
        \<not> isl (startGame a v t st)
        \<and> games (step (StartGame a v t) st) a =
            \<lparr>currentRound = 1, pumpCount = 0, pendingPoints = 0, totalScore = 0,
             isActive = True\<rparr>)"
  by (simp add: startGame_def step_def Let_def)


theorem startGame_spec_witness:
  "\<not> isl (startGame 1 ENTRY_FEE 0 deployed)
   \<and> games (step (StartGame 1 ENTRY_FEE 0) deployed) 1 =
        \<lparr>currentRound = 1, pumpCount = 0, pendingPoints = 0, totalScore = 0, isActive = True\<rparr>
   \<and> startGame 1 ENTRY_FEE 7 at_round5 = Inl (Revert ''Game already active'')
   \<and> step (StartGame 1 ENTRY_FEE 7) at_round5 = at_round5
   \<and> startGame 1 5 0 deployed = Inl (Revert ''Incorrect entry fee'')
   \<and> step (StartGame 1 5 0) deployed = deployed"
  using startGame_spec [of deployed 1 ENTRY_FEE 0]
    startGame_spec [of at_round5 1 ENTRY_FEE 7]
    startGame_spec [of deployed 1 5 0]
  by (simp add: at_round5_game deployed_def zero_game_def ENTRY_FEE_def)

text \<open>
  C4. When \<open>collectPoints\<close> succeeds in round 5 the game is no longer active, and it stays
  so over any further transactions among which the player does not call \<open>startGame\<close>:
  there every \<open>pumpBalloon\<close> and \<open>collectPoints\<close> of the player reverts with
  \<open>No active game\<close> and changes nothing. The only transaction that turns a game that is
  not active into an active one is the player's own \<open>startGame\<close> with the entry fee.
\<close>

theorem game_over_after_round5:
  "(collectPoints a st = Inr (evs, st') \<and> currentRound (games st a) = MAX_ROUNDS
      \<and> (\<forall>x\<in>set xs. \<not> starts a x) \<longrightarrow>
        \<not> isActive (games st' a)
        \<and> \<not> isActive (games (run xs st') a)
        \<and> pumpBalloon a (run xs st') = Inl (Revert ''No active game'')
        \<and> collectPoints a (run xs st') = Inl (Revert ''No active game'')
        \<and> step (PumpBalloon a) (run xs st') = run xs st'
        \<and> step (CollectPoints a) (run xs st') = run xs st')
   \<and> (\<not> isActive (games s a) \<and> isActive (games (step y s) a) \<longrightarrow>
        (\<exists>t. y = StartGame a ENTRY_FEE t))"
proof (intro conjI impI)
  assume h: "collectPoints a st = Inr (evs, st') \<and> currentRound (games st a) = MAX_ROUNDS
      \<and> (\<forall>x\<in>set xs. \<not> starts a x)"
  then show over: "\<not> isActive (games st' a)"
    by (auto simp add: collectPoints_unfold Let_def split: if_splits)
  with h have "games (run xs st') a = games st' a"
    by (simp add: inactive_run)
  with over show off: "\<not> isActive (games (run xs st') a)" by simp
  then show "pumpBalloon a (run xs st') = Inl (Revert ''No active game'')"
    and "collectPoints a (run xs st') = Inl (Revert ''No active game'')"
    and "step (PumpBalloon a) (run xs st') = run xs st'"
    and "step (CollectPoints a) (run xs st') = run xs st'"
    by (simp_all add: pumpBalloon_unfold collectPoints_unfold step_def)
next
  assume "\<not> isActive (games s a) \<and> isActive (games (step y s) a)"
  then show "\<exists>t. y = StartGame a ENTRY_FEE t"
    by (cases y) (auto simp add: step_def call_unfold Let_def split: if_splits)
qed

theorem game_over_after_round5_witness:
  "\<not> isActive (games finished 1)
   \<and> pumpBalloon 1 (run [PumpBalloon 1, Withdraw 2 True, StartGame 2 ENTRY_FEE 0,
                          CollectPoints 1, StartGame 1 5 0] finished)
       = Inl (Revert ''No active game'')
   \<and> collectPoints 1 (run [PumpBalloon 1, Withdraw 2 True, StartGame 2 ENTRY_FEE 0,
                            CollectPoints 1, StartGame 1 5 0] finished)
       = Inl (Revert ''No active game'')
   \<and> isActive (games (step (StartGame 1 ENTRY_FEE 0) finished) 1)"
proof -
  have h: "currentRound (games at_round5 1) = MAX_ROUNDS"
    "\<forall>x\<in>set [PumpBalloon 1, Withdraw 2 True, StartGame 2 ENTRY_FEE 0, CollectPoints 1,
       StartGame 1 5 0]. \<not> starts 1 x"
    by (simp_all add: at_round5_game MAX_ROUNDS_def ENTRY_FEE_def)
  have restart: "isActive (games (step (StartGame 1 ENTRY_FEE 0) finished) 1)"
    by (simp add: step_def startGame_def finished_game)
  have "\<not> isActive (games finished 1)" by (simp add: finished_game)
  with restart
    game_over_after_round5 [where a = 1 and st = at_round5 and st' = finished
      and evs = "[PointsCollected 1 5 70, GameCompleted 1 70]"
      and xs = "[PumpBalloon 1, Withdraw 2 True, StartGame 2 ENTRY_FEE 0, CollectPoints 1,
        StartGame 1 5 0]"
      and s = finished and y = "StartGame 1 ENTRY_FEE 0"]
    at_round5_collect h
  show ?thesis by (simp del: run.simps)
qed

text \<open>
  The bank that ends round 5 does not reset the counters: player 1 reaches round 5 with one
  pump and 10 pending points, banks, and the completed game still shows one pump and 10
  pending points.
\<close>

theorem round5_not_reset_counterexample:
  "isActive (games at_round5 1) \<and> currentRound (games at_round5 1) = 5
   \<and> pumpCount (games at_round5 1) = 1 \<and> pendingPoints (games at_round5 1) = 10
   \<and> \<not> isl (collectPoints 1 at_round5)
   \<and> \<not> isActive (games (step (CollectPoints 1) at_round5) 1)
   \<and> pumpCount (games (step (CollectPoints 1) at_round5) 1) = 1
   \<and> pendingPoints (games (step (CollectPoints 1) at_round5) 1) = 10"
  by (simp add: at_round5_game collectPoints_unfold step_def Let_def MAX_ROUNDS_def)

text \<open>
  C5, as the code has it. A successful \<open>collectPoints\<close> in a round below 5 and a
  successful \<open>startGame\<close> set \<open>pumpCount\<close> and \<open>pendingPoints\<close> to 0; the successful
  \<open>collectPoints\<close> of round 5 ends the game and leaves both as they were; and no other
  transaction takes a \<open>pumpCount\<close> that is not 0 to 0.
\<close>

theorem round_reset:
  "(collectPoints a st = Inr (evs, st') \<and> currentRound (games st a) < MAX_ROUNDS \<longrightarrow>
      pumpCount (games st' a) = 0 \<and> pendingPoints (games st' a) = 0 \<and> isActive (games st' a))
   \<and> (startGame a v t st = Inr (evs, st') \<longrightarrow>
        pumpCount (games st' a) = 0 \<and> pendingPoints (games st' a) = 0)
   \<and> (collectPoints a st = Inr (evs, st') \<and> \<not> currentRound (games st a) < MAX_ROUNDS \<longrightarrow>
        pumpCount (games st' a) = pumpCount (games st a)
        \<and> pendingPoints (games st' a) = pendingPoints (games st a)
        \<and> \<not> isActive (games st' a))
   \<and> (pumpCount (games st a) \<noteq> 0 \<and> pumpCount (games (step x st) a) = 0 \<longrightarrow>
        x = CollectPoints a \<and> currentRound (games st a) < MAX_ROUNDS
        \<or> (\<exists>t. x = StartGame a ENTRY_FEE t))"
proof (intro conjI impI)
  assume "pumpCount (games st a) \<noteq> 0 \<and> pumpCount (games (step x st) a) = 0"
  then show "x = CollectPoints a \<and> currentRound (games st a) < MAX_ROUNDS
        \<or> (\<exists>t. x = StartGame a ENTRY_FEE t)"
    by (cases x) (auto simp add: step_def call_unfold Let_def split: if_splits)
qed (auto simp add: call_unfold Let_def split: if_splits)

theorem round_reset_witness:
  "pumpCount (games round2 1) = 0 \<and> pendingPoints (games round2 1) = 0
   \<and> pumpCount (games started 1) = 0 \<and> pendingPoints (games started 1) = 0
   \<and> pumpCount (games finished 1) = 1 \<and> pendingPoints (games finished 1) = 10
   \<and> pumpCount (games (step (StartGame 1 ENTRY_FEE 9) finished) 1) = 0"
proof -
  have r: "currentRound (games pumped_once 1) < MAX_ROUNDS"
    "\<not> currentRound (games at_round5 1) < MAX_ROUNDS"
    by (simp_all add: pumped_once_game at_round5_game MAX_ROUNDS_def)
  from r pumped_once_collect
    round_reset [where a = 1 and st = pumped_once and st' = round2
      and evs = "[PointsCollected 1 1 10]"]
  have a1: "pumpCount (games round2 1) = 0 \<and> pendingPoints (games round2 1) = 0"
    by simp
  from deployed_start
    round_reset [where a = 1 and st = deployed and st' = started and evs = "[GameStarted 1 0]"
      and v = ENTRY_FEE and t = 0]
  have a2: "pumpCount (games started 1) = 0 \<and> pendingPoints (games started 1) = 0"
    by simp
  from r at_round5_collect
    round_reset [where a = 1 and st = at_round5 and st' = finished
      and evs = "[PointsCollected 1 5 70, GameCompleted 1 70]"]
  have a3: "pumpCount (games finished 1) = 1 \<and> pendingPoints (games finished 1) = 10"
    by (simp add: at_round5_game)
  have z: "pumpCount (games (step (StartGame 1 ENTRY_FEE 9) finished) 1) = 0"
    by (simp add: step_def startGame_def finished_game)
  with round_reset [where a = 1 and st = finished and x = "StartGame 1 ENTRY_FEE 9"]
  have a4: "pumpCount (games (step (StartGame 1 ENTRY_FEE 9) finished) 1) = 0"
    by simp
  from a1 a2 a3 a4 show ?thesis by simp
qed

text \<open>
  A new game begins at round 1 again: player 1 completes a game, which leaves
  \<open>currentRound\<close> at 5, and starts the next one, which puts it back to 1.
\<close>

theorem currentRound_restart_counterexample:
  "currentRound (games finished 1) = 5
   \<and> \<not> isl (startGame 1 ENTRY_FEE 0 finished)
   \<and> currentRound (games (step (StartGame 1 ENTRY_FEE 0) finished) 1) = 1
   \<and> currentRound (games (step (StartGame 1 ENTRY_FEE 0) finished) 1)
       < currentRound (games finished 1)"
  by (simp add: step_def startGame_def finished_game)

text \<open>
  C6, as the code has it. Within a game \<open>currentRound\<close> never decreases and stays within
  1..5: in every storage reachable from deployment an active game has
  \<open>1 \<le> currentRound \<le> 5\<close>; no transaction applied to an active game lowers its
  \<open>currentRound\<close>; over any transactions among which the player does not start a new
  game \<open>currentRound\<close> does not decrease; a successful \<open>collectPoints\<close> in round 5
  makes the game inactive; and a successful \<open>startGame\<close> puts \<open>currentRound\<close> at 1.
\<close>

theorem currentRound_monotone:
  "(isActive (games (run xs deployed) a) \<longrightarrow>
      1 \<le> currentRound (games (run xs deployed) a)
      \<and> currentRound (games (run xs deployed) a) \<le> MAX_ROUNDS)
   \<and> (isActive (games st a) \<longrightarrow>
        currentRound (games st a) \<le> currentRound (games (step x st) a))
   \<and> ((\<forall>y\<in>set ys. \<not> starts a y) \<longrightarrow>
        currentRound (games st a) \<le> currentRound (games (run ys st) a))
   \<and> (collectPoints a s = Inr (evs, s') \<and> currentRound (games s a) = MAX_ROUNDS \<longrightarrow>
        \<not> isActive (games s' a))
   \<and> (startGame a v t s = Inr (evs, s') \<longrightarrow> currentRound (games s' a) = 1)"
proof (intro conjI impI)
  assume "isActive (games (run xs deployed) a)"
  with game_inv_run [OF game_inv_deployed, where a = a and xs = xs]
  show "1 \<le> currentRound (games (run xs deployed) a)"
    and "currentRound (games (run xs deployed) a) \<le> MAX_ROUNDS"
    by (simp_all add: game_inv_def)
next
  assume "isActive (games st a)"
  then show "currentRound (games st a) \<le> currentRound (games (step x st) a)"
    by (cases x)
      (auto simp add: step_def call_unfold Let_def MAX_ROUNDS_def round_succ_le)
next
  assume "\<forall>y\<in>set ys. \<not> starts a y"
  then show "currentRound (games st a) \<le> currentRound (games (run ys st) a)"
    by (rule round_run)
next
  assume "collectPoints a s = Inr (evs, s') \<and> currentRound (games s a) = MAX_ROUNDS"
  then show "\<not> isActive (games s' a)"
    by (auto simp add: collectPoints_unfold Let_def split: if_splits)
next
  assume "startGame a v t s = Inr (evs, s')"
  then show "currentRound (games s' a) = 1"
    by (auto simp add: startGame_def Let_def split: if_splits)
qed

theorem currentRound_monotone_witness:
  "currentRound (games at_round5 1) \<le> MAX_ROUNDS
   \<and> currentRound (games pumped_once 1) \<le> currentRound (games round2 1)
   \<and> currentRound (games started 1) \<le> currentRound (games (run (five_rounds 1) started) 1)
   \<and> \<not> isActive (games finished 1)
   \<and> currentRound (games started 1) = 1"
proof -
  have h: "isActive (games (run (upto_round5 1) deployed) 1)"
    "isActive (games pumped_once 1)"
    "\<forall>y\<in>set (five_rounds 1). \<not> starts 1 y"
    "currentRound (games at_round5 1) = MAX_ROUNDS"
    by (simp_all add: at_round5_def [symmetric] at_round5_game pumped_once_game five_rounds_def
        MAX_ROUNDS_def)
  from h at_round5_collect
    currentRound_monotone [where a = 1 and xs = "upto_round5 1" and st = pumped_once
      and x = "CollectPoints 1" and ys = "[]" and s = at_round5 and s' = finished
      and evs = "[PointsCollected 1 5 70, GameCompleted 1 70]"]
  have a1: "currentRound (games at_round5 1) \<le> MAX_ROUNDS"
    "currentRound (games pumped_once 1) \<le> currentRound (games round2 1)"
    "\<not> isActive (games finished 1)"
    by (simp_all add: at_round5_def [symmetric] round2_def [symmetric])
  from h currentRound_monotone [where a = 1 and st = started and ys = "five_rounds 1"]
  have a2: "currentRound (games started 1) \<le> currentRound (games (run (five_rounds 1) started) 1)"
    by simp
  from deployed_start
    currentRound_monotone [where a = 1 and s = deployed and s' = started
      and evs = "[GameStarted 1 0]" and v = ENTRY_FEE and t = 0]
  have a3: "currentRound (games started 1) = 1"
    by simp
  from a1 a2 a3 show ?thesis by simp
qed

text \<open>
  The sort is not stable: players 1 and 2 have the same high score and player 1 registered
  first, yet the leaderboard lists player 2 before player 1 (the entry of player 3 is
  exchanged with the one of player 1 across player 2).
\<close>

theorem leaderboard_tie_counterexample:
  "players three_players = [1, 2, 3]
   \<and> highScores three_players 1 = 50 \<and> highScores three_players 2 = 50
   \<and> highScores three_players 3 = 70
   \<and> getLeaderboard three_players = ([3, 2, 1], [70, 50, 50])"
  by (simp add: three_players_list three_players_scores three_players_board)

text \<open>
  C7, as the code has it. \<open>getLeaderboard\<close> returns \<open>min 10 n\<close> players and as many
  scores, \<open>n\<close> the number of registered players; the scores are in non-increasing order;
  each returned pair is a registered player with their high score (counted with
  multiplicity); and every pair left out has a score no greater than every score returned.
  Nothing is said about the order among equal scores.
\<close>

theorem getLeaderboard_sorted_topK:
  "length (fst (getLeaderboard st)) = min 10 (length (players st))
   \<and> length (snd (getLeaderboard st)) = min 10 (length (players st))
   \<and> sorted_wrt (\<lambda>x y. y \<le> x) (snd (getLeaderboard st))
   \<and> mset (zip (fst (getLeaderboard st)) (snd (getLeaderboard st)))
        \<subseteq># mset (map (\<lambda>p. (p, highScores st p)) (players st))
   \<and> (\<forall>q \<in># mset (map (\<lambda>p. (p, highScores st p)) (players st))
               - mset (zip (fst (getLeaderboard st)) (snd (getLeaderboard st))).
        \<forall>s \<in> set (snd (getLeaderboard st)). snd q \<le> s)"
proof -
  let ?n = "length (players st)"
  let ?init = "(players st, map (highScores st) (players st))"
  let ?M = "mset (map (\<lambda>p. (p, highScores st p)) (players st))"
  let ?tp = "fst (sort_loop ?n ?init)"
  let ?ts = "snd (sort_loop ?n ?init)"
  have "arrays_of ?n ?M ?init" by (simp add: arrays_of_def zip_with_map)
  then have "arrays_of ?n ?M (sort_loop ?n ?init)" by (rule sort_loop_arrays)
  then have len: "length ?tp = ?n" "length ?ts = ?n" and M: "mset (zip ?tp ?ts) = ?M"
    by (simp_all add: arrays_of_def)
  have srt: "sorted_wrt (\<lambda>x y. y \<le> x) ?ts"
    by (rule sort_loop_sorted) simp
  have board: "fst (getLeaderboard st) = take 10 ?tp" "snd (getLeaderboard st) = take 10 ?ts"
    by (simp_all add: getLeaderboard_take)
  from len have eq: "length ?tp = length ?ts" by simp
  from top_of_sorted [OF eq srt M, of 10] srt len
  show ?thesis
    by (simp only: board) (simp add: sorted_wrt_take)
qed

theorem getLeaderboard_sorted_topK_witness:
  "getLeaderboard eleven_players =
     ([6, 5, 11, 10, 4, 3, 9, 8, 2, 1], [150, 130, 130, 110, 110, 90, 90, 70, 70, 50])
   \<and> (7, 50) \<in># mset (map (\<lambda>p. (p, highScores eleven_players p)) (players eleven_players))
       - mset (zip (fst (getLeaderboard eleven_players)) (snd (getLeaderboard eleven_players)))
   \<and> 150 \<in> set (snd (getLeaderboard eleven_players))
   \<and> snd (7 :: address, 50 :: uint256) \<le> 150
   \<and> length (fst (getLeaderboard eleven_players)) = 10"
proof -
  have s: "150 \<in> set (snd (getLeaderboard eleven_players))"
    by (simp add: eleven_players_board)
  have n: "min 10 (length (players eleven_players)) = 10"
    by (simp add: eleven_players_def)
  from getLeaderboard_sorted_topK [of eleven_players] eleven_players_rest s
  have "snd (7 :: address, 50 :: uint256) \<le> 150" by blast
  moreover from getLeaderboard_sorted_topK [of eleven_players] n
  have "length (fst (getLeaderboard eleven_players)) = 10" by simp
  ultimately show ?thesis using eleven_players_board eleven_players_rest s by blast
qed

text \<open>
  C8. With no pump in the current round of an active game (\<open>pumpCount = 0\<close>) a call of
  \<open>collectPoints\<close> reverts with \<open>Must pump at least once\<close> and leaves the storage as
  it was; in particular right after a successful \<open>startGame\<close>, and right after a
  successful \<open>collectPoints\<close> that opened a new round. With \<open>pumpCount = 0\<close> the call
  never succeeds, whatever the storage: without an active game the earlier check reverts
  it with \<open>No active game\<close>.
\<close>

theorem bank_needs_pump:
  "(isActive (games st a) \<and> pumpCount (games st a) = 0 \<longrightarrow>
      collectPoints a st = Inl (Revert ''Must pump at least once'')
      \<and> step (CollectPoints a) st = st)
   \<and> (pumpCount (games st a) = 0 \<longrightarrow>
        isl (collectPoints a st)
        \<and> collectPoints a st =
            Inl (Revert (if isActive (games st a) then ''Must pump at least once''
                         else ''No active game''))
        \<and> step (CollectPoints a) st = st)
   \<and> (startGame a v t st = Inr (evs, st') \<longrightarrow>
        isActive (games st' a) \<and> pumpCount (games st' a) = 0
        \<and> collectPoints a st' = Inl (Revert ''Must pump at least once'')
        \<and> step (CollectPoints a) st' = st')
   \<and> (collectPoints a st = Inr (evs, st') \<and> currentRound (games st a) < MAX_ROUNDS \<longrightarrow>
        isActive (games st' a) \<and> pumpCount (games st' a) = 0
        \<and> collectPoints a st' = Inl (Revert ''Must pump at least once'')
        \<and> step (CollectPoints a) st' = st')"
  by (auto simp add: collectPoints_unfold startGame_def step_def Let_def split: if_splits)

theorem bank_needs_pump_witness:
  "collectPoints 1 started = Inl (Revert ''Must pump at least once'')
   \<and> step (CollectPoints 1) started = started
   \<and> collectPoints 1 round2 = Inl (Revert ''Must pump at least once'')
   \<and> step (CollectPoints 1) round2 = round2
   \<and> collectPoints 1 deployed = Inl (Revert ''No active game'')"
proof -
  have h: "pumpCount (games started 1) = 0" "isActive (games started 1)"
    "pumpCount (games deployed 1) = 0" "\<not> isActive (games deployed 1)"
    "currentRound (games pumped_once 1) < MAX_ROUNDS"
    by (simp_all add: started_game pumped_once_game deployed_def zero_game_def MAX_ROUNDS_def)
  from h(1,2) bank_needs_pump [where a = 1 and st = started]
  have a1: "collectPoints 1 started = Inl (Revert ''Must pump at least once'')"
    "step (CollectPoints 1) started = started"
    by blast+
  from bank_needs_pump [where a = 1 and st = deployed] h(3)
  have "collectPoints 1 deployed =
      Inl (Revert (if isActive (games deployed 1) then ''Must pump at least once''
                   else ''No active game''))"
    by blast
  with h(4) have a2: "collectPoints 1 deployed = Inl (Revert ''No active game'')"
    by (simp only: if_False)
  from h(5) pumped_once_collect
    bank_needs_pump [where a = 1 and st = pumped_once and st' = round2
      and evs = "[PointsCollected 1 1 10]"]
  have a3: "collectPoints 1 round2 = Inl (Revert ''Must pump at least once'')"
    "step (CollectPoints 1) round2 = round2"
    by blast+
  from deployed_start
    bank_needs_pump [where a = 1 and st = deployed and st' = started
      and evs = "[GameStarted 1 0]" and v = ENTRY_FEE and t = 0]
  have a4: "collectPoints 1 started = Inl (Revert ''Must pump at least once'')"
    by blast
  from a1 a2 a3 a4 show ?thesis by blast
qed

text \<open>
  C9. A player's high score never decreases over any sequence of transactions. A
  transaction changes it only if it is the player's \<open>collectPoints\<close> that completes the
  game (active before, not active after), the completed game's \<open>totalScore\<close> is strictly
  greater than the stored high score, and the new high score is that \<open>totalScore\<close>.
\<close>

theorem highScore_monotone:
  "highScores st a \<le> highScores (run xs st) a
   \<and> (highScores (step x st) a \<noteq> highScores st a \<longrightarrow>
        x = CollectPoints a \<and> isActive (games st a) \<and> \<not> isActive (games (step x st) a)
        \<and> highScores st a < totalScore (games (step x st) a)
        \<and> highScores (step x st) a = totalScore (games (step x st) a))"
proof
  show "highScores st a \<le> highScores (run xs st) a" by (rule highScore_run)
next
  show "highScores (step x st) a \<noteq> highScores st a \<longrightarrow>
        x = CollectPoints a \<and> isActive (games st a) \<and> \<not> isActive (games (step x st) a)
        \<and> highScores st a < totalScore (games (step x st) a)
        \<and> highScores (step x st) a = totalScore (games (step x st) a)"
    by (cases x) (auto simp add: step_def call_unfold Let_def split: if_splits)
qed

theorem highScore_monotone_witness:
  "highScores at_round5 1 = 0 \<and> highScores finished 1 = 70
   \<and> highScores at_round5 1 \<le> highScores (run [CollectPoints 1] at_round5) 1
   \<and> \<not> isActive (games finished 1)
   \<and> highScores at_round5 1 < totalScore (games finished 1)
   \<and> highScores finished 1 = totalScore (games finished 1)"
proof -
  have h: "highScores (step (CollectPoints 1) at_round5) 1 \<noteq> highScores at_round5 1"
    by (simp add: finished_def [symmetric] finished_highScore at_round5_highScore)
  from h highScore_monotone [where a = 1 and st = at_round5 and x = "CollectPoints 1"
      and xs = "[CollectPoints 1]"]
  show ?thesis
    by (simp add: finished_def [symmetric] finished_highScore at_round5_highScore
        del: run.simps)
qed

text \<open>
  C10. In every storage reachable from deployment, an active game has
  \<open>pendingPoints = 10 * (2 ^ pumpCount - 1)\<close> (as a 256-bit value and as a number),
  \<open>pumpCount \<le> 2\<close>, and so \<open>pendingPoints\<close> is 0, 10 or 30 and at most 30.
\<close>

theorem pendingPoints_determined:
  "isActive (games (run xs deployed) a) \<longrightarrow>
     pendingPoints (games (run xs deployed) a)
       = 10 * (2 ^ unat (pumpCount (games (run xs deployed) a)) - 1)
     \<and> unat (pendingPoints (games (run xs deployed) a))
       = 10 * (2 ^ unat (pumpCount (games (run xs deployed) a)) - 1)
     \<and> pumpCount (games (run xs deployed) a) \<le> 2
     \<and> pendingPoints (games (run xs deployed) a) \<in> {0, 10, 30}
     \<and> pendingPoints (games (run xs deployed) a) \<le> 30"
  using game_inv_run [OF game_inv_deployed, where a = a and xs = xs]
  by (auto simp add: game_inv_def word_le_nat_alt)

theorem pendingPoints_determined_witness:
  "isActive (games at_round5 1)
   \<and> pendingPoints (games at_round5 1) = 10 * (2 ^ unat (pumpCount (games at_round5 1)) - 1)
   \<and> pendingPoints (games at_round5 1) \<le> 30
   \<and> pendingPoints (games at_round5 1) = 10"
proof -
  have h: "isActive (games at_round5 1)" "pendingPoints (games at_round5 1) = 10"
    by (simp_all add: at_round5_game)
  note T = pendingPoints_determined [where a = 1 and xs = "upto_round5 1", folded at_round5_def]
  from h T show ?thesis by blast
qed

end
